theory Spec2Isabelle
  imports Main
begin

section \<open>Go channels\<close>

text \<open>
  A channel of Go, as far as pkg/hook/hook.go uses one: a capacity fixed by \<open>make\<close>,
  the buffered values (oldest first) and the closed flag.
\<close>

record 'a chan =
  chan_cap :: nat
  chan_buf :: "'a list"
  chan_closed :: bool

definition make_chan :: "nat \<Rightarrow> 'a chan" where
  "make_chan n = \<lparr>chan_cap = n, chan_buf = [], chan_closed = False\<rparr>"

datatype 'a send_result = Sent "'a chan" | SendBlocks | SendPanics

text \<open>
  \<open>c <- v\<close>: panics on a closed channel, stores the value while the buffer has room, and
  waits otherwise. (The hand-over to a receiver that is already parked on the channel is
  part of the \<open>WaitCall\<close> event below.)
\<close>

definition chan_send :: "'a \<Rightarrow> 'a chan \<Rightarrow> 'a send_result" where
  "chan_send v c =
     (if chan_closed c then SendPanics
      else if length (chan_buf c) < chan_cap c then Sent (c\<lparr>chan_buf := chan_buf c @ [v]\<rparr>)
      else SendBlocks)"

text \<open>
  \<open>v, ok := <-c\<close>: the oldest buffered value with \<open>ok = true\<close>; on a closed and drained
  channel the zero value of the element type with \<open>ok = false\<close>; \<open>None\<close> while the
  receive has to wait.
\<close>

definition chan_recv :: "'a \<Rightarrow> 'a chan \<Rightarrow> ('a \<times> bool \<times> 'a chan) option" where
  "chan_recv zero c =
     (case chan_buf c of
        v # rest \<Rightarrow> Some (v, True, c\<lparr>chan_buf := rest\<rparr>)
      | [] \<Rightarrow> if chan_closed c then Some (zero, False, c) else None)"

text \<open>\<open>close(c)\<close>: \<open>None\<close> is the panic of closing a closed channel.\<close>

definition chan_close :: "'a chan \<Rightarrow> 'a chan option" where
  "chan_close c = (if chan_closed c then None else Some (c\<lparr>chan_closed := True\<rparr>))"

section \<open>hookData\<close>

text \<open>
  The mutex of \<open>hookData\<close> makes \<open>get\<close> and \<open>set\<close> atomic; they are single steps here.
\<close>

record hookData =
  ch :: "unit chan"
  hash :: string

definition NewHookData :: hookData where
  "NewHookData = \<lparr>ch = make_chan 1, hash = ''''\<rparr>"

definition hookData_events :: "hookData \<Rightarrow> unit chan" where
  "hookData_events d = ch d"

definition hookData_get :: "hookData \<Rightarrow> string" where
  "hookData_get d = hash d"

definition hookData_set :: "string \<Rightarrow> hookData \<Rightarrow> hookData" where
  "hookData_set newHash d = d\<lparr>hash := newHash\<rparr>"

text \<open>
  The \<open>select\<close> of \<open>send\<close> with its empty \<open>default\<close>: a send that would wait is dropped.
  \<open>None\<close> is the panic of sending on a closed channel.
\<close>

definition hookData_select :: "hookData \<Rightarrow> hookData option" where
  "hookData_select d =
     (case chan_send () (ch d) of
        Sent c \<Rightarrow> Some (d\<lparr>ch := c\<rparr>)
      | SendBlocks \<Rightarrow> Some d
      | SendPanics \<Rightarrow> None)"

definition hookData_send :: "string \<Rightarrow> hookData \<Rightarrow> hookData option" where
  "hookData_send newHash d = hookData_select (hookData_set newHash d)"

fun hookData_sends :: "string list \<Rightarrow> hookData \<Rightarrow> hookData option" where
  "hookData_sends [] d = Some d"
| "hookData_sends (h # hs) d =
     (case hookData_send h d of None \<Rightarrow> None | Some d' \<Rightarrow> hookData_sends hs d')"

section \<open>HookRunner\<close>

text \<open>
  The hook is known to the runner by its \<open>Name()\<close>; what \<open>Do\<close> returns comes from the
  environment, with the step that ends the call. The logger is represented by the
  \<open>LogError\<close> entries of the trace. \<open>hasCompletedOnce = None\<close> is the nil channel.
\<close>

record HookRunner =
  hook :: string
  backoff :: int
  data :: hookData
  hasCompletedOnce :: "bool chan option"

definition NewHookRunner :: "string \<Rightarrow> int \<Rightarrow> hookData \<Rightarrow> bool chan option \<Rightarrow> HookRunner" where
  "NewHookRunner hk bo d hasSucceededOnce =
     \<lparr>hook = hk, backoff = bo, data = d, hasCompletedOnce = hasSucceededOnce\<rparr>"

definition Send :: "string \<Rightarrow> HookRunner \<Rightarrow> HookRunner option" where
  "Send h r = (case hookData_send h (data r) of None \<Rightarrow> None | Some d \<Rightarrow> Some (r\<lparr>data := d\<rparr>))"

definition err_async :: string where
  "err_async = ''HookRunner.WaitForCompletion called on async runner''"

definition err_completed :: string where
  "err_completed = ''exechook completed with error''"

text \<open>What \<open>WaitForCompletion\<close> returns for a received value: \<open>None\<close> is the nil error.\<close>

definition completion_error :: "bool \<Rightarrow> string option" where
  "completion_error exechookChannelFinishedSuccessfully =
     (if \<not> exechookChannelFinishedSuccessfully then Some err_completed else None)"

text \<open>
  \<open>WaitForCompletion\<close>: \<open>None\<close> while the receive has to wait, otherwise the returned error
  and the runner with the channel as the receive left it.
\<close>

definition WaitForCompletion :: "HookRunner \<Rightarrow> (string option \<times> HookRunner) option" where
  "WaitForCompletion r =
     (case hasCompletedOnce r of
        None \<Rightarrow> Some (Some err_async, r)
      | Some c \<Rightarrow>
          (case chan_recv False c of
             None \<Rightarrow> None
           | Some (v, ok, c') \<Rightarrow> Some (completion_error v, r\<lparr>hasCompletedOnce := Some c'\<rparr>)))"

section \<open>The process: Run, producers and waiters\<close>

text \<open>Effects of the runner's goroutine, in the order they happen.\<close>

datatype obs =
    HookDo string
  | LogError string string
  | CounterInc string string
  | Sleep int
  | ChanSend bool
  | ChanClose

text \<open>
  Where the goroutine of \<open>Run\<close> stands. \<open>Crashed\<close> is an unrecovered panic, which ends the
  whole process; \<open>Exited\<close> is \<open>runtime.Goexit\<close>; \<open>Returned\<close> is the end of the \<open>range\<close> loop
  on a closed channel.
\<close>

datatype pc =
    AtRegister
  | AtRange
  | AtGet
  | AtDo string
  | AtReport bool
  | AtClose
  | AtSleep
  | Returned
  | Exited
  | Crashed

record proc =
  runner :: HookRunner
  registry :: "string list"
  trace :: "obs list"
  pc :: pc
  lastHash :: string
  waited :: "string option list"

definition hookRunCount :: string where
  "hookRunCount = ''git_sync_hook_run_count_total''"

text \<open>
  Modelled from the spec: \<open>prometheus.MustRegister\<close> and the default registry are library
  code, not part of the source. The counter is process-wide and to be registered once; a
  collector whose metric is already in the registry is refused, and \<open>MustRegister\<close> then
  panics (\<open>None\<close>).
\<close>

definition MustRegister :: "string \<Rightarrow> string list \<Rightarrow> string list option" where
  "MustRegister name reg = (if name \<in> set reg then None else Some (name # reg))"

definition updateHookRunCountMetric :: "string \<Rightarrow> string \<Rightarrow> proc \<Rightarrow> proc" where
  "updateHookRunCountMetric name status s = s\<lparr>trace := trace s @ [CounterInc name status]\<rparr>"

text \<open>
  One step of the goroutine that executes \<open>Run\<close>. The argument is the error \<open>Do\<close> returns
  (\<open>None\<close> is nil); only the step that ends a call of \<open>Do\<close> reads it. A step that has to
  wait leaves the state as it is.
\<close>

definition Run_step :: "string option \<Rightarrow> proc \<Rightarrow> proc" where
  "Run_step err s =
     (case pc s of
        AtRegister \<Rightarrow>
          (case MustRegister hookRunCount (registry s) of
             None \<Rightarrow> s\<lparr>pc := Crashed\<rparr>
           | Some reg \<Rightarrow> s\<lparr>lastHash := '''', registry := reg, pc := AtRange\<rparr>)
      | AtRange \<Rightarrow>
          (case chan_recv () (hookData_events (data (runner s))) of
             None \<Rightarrow> s
           | Some (v, ok, c) \<Rightarrow>
               if ok then s\<lparr>runner := (runner s)\<lparr>data := (data (runner s))\<lparr>ch := c\<rparr>\<rparr>, pc := AtGet\<rparr>
               else s\<lparr>pc := Returned\<rparr>)
      | AtGet \<Rightarrow>
          (let h = hookData_get (data (runner s)) in
           if h = lastHash s then s\<lparr>pc := AtRange\<rparr>
           else s\<lparr>trace := trace s @ [HookDo h], pc := AtDo h\<rparr>)
      | AtDo h \<Rightarrow>
          (case err of
             Some e \<Rightarrow>
               (updateHookRunCountMetric (hook (runner s)) ''error''
                  (s\<lparr>trace := trace s @ [LogError e ''hook failed'']\<rparr>))\<lparr>pc := AtReport False\<rparr>
           | None \<Rightarrow>
               (updateHookRunCountMetric (hook (runner s)) ''success'' s)
                  \<lparr>lastHash := h, pc := AtReport True\<rparr>)
      | AtReport completedSuccessfully \<Rightarrow>
          (case hasCompletedOnce (runner s) of
             None \<Rightarrow>
               if completedSuccessfully then s\<lparr>pc := AtRange\<rparr>
               else s\<lparr>trace := trace s @ [Sleep (backoff (runner s))], pc := AtSleep\<rparr>
           | Some c \<Rightarrow>
               (case chan_send completedSuccessfully c of
                  SendPanics \<Rightarrow> s\<lparr>pc := Crashed\<rparr>
                | SendBlocks \<Rightarrow> s
                | Sent c' \<Rightarrow>
                    s\<lparr>runner := (runner s)\<lparr>hasCompletedOnce := Some c'\<rparr>,
                      trace := trace s @ [ChanSend completedSuccessfully], pc := AtClose\<rparr>))
      | AtClose \<Rightarrow>
          (case hasCompletedOnce (runner s) of
             None \<Rightarrow> s\<lparr>pc := Crashed\<rparr>
           | Some c \<Rightarrow>
               (case chan_close c of
                  None \<Rightarrow> s\<lparr>pc := Crashed\<rparr>
                | Some c' \<Rightarrow>
                    s\<lparr>runner := (runner s)\<lparr>hasCompletedOnce := Some c'\<rparr>,
                      trace := trace s @ [ChanClose], pc := Exited\<rparr>))
      | AtSleep \<Rightarrow> s\<lparr>pc := AtGet\<rparr>
      | Returned \<Rightarrow> s
      | Exited \<Rightarrow> s
      | Crashed \<Rightarrow> s)"

text \<open>
  What the goroutines of the process do, one event at a time: a producer inside \<open>Send\<close>
  (first \<open>set\<close>, then the \<open>select\<close>), the goroutine of \<open>Run\<close>, and a caller of
  \<open>WaitForCompletion\<close>.
\<close>

datatype event =
    SendSet string
  | SendSelect
  | RunnerStep "string option"
  | WaitCall

text \<open>
  A call of \<open>WaitForCompletion\<close> that can return does, and its result is appended to
  \<open>waited\<close>. A receiver that waits on the empty open channel while the runner stands at
  its send is handed the value directly. Otherwise the caller keeps waiting.
\<close>

definition wait_call :: "proc \<Rightarrow> proc" where
  "wait_call s =
     (case WaitForCompletion (runner s) of
        Some (res, r') \<Rightarrow> s\<lparr>runner := r', waited := waited s @ [res]\<rparr>
      | None \<Rightarrow>
          (case pc s of
             AtReport b \<Rightarrow>
               s\<lparr>trace := trace s @ [ChanSend b], pc := AtClose,
                 waited := waited s @ [completion_error b]\<rparr>
           | _ \<Rightarrow> s))"

definition step :: "event \<Rightarrow> proc \<Rightarrow> proc" where
  "step ev s =
     (if pc s = Crashed then s
      else case ev of
        SendSet h \<Rightarrow> s\<lparr>runner := (runner s)\<lparr>data := hookData_set h (data (runner s))\<rparr>\<rparr>
      | SendSelect \<Rightarrow>
          (case hookData_select (data (runner s)) of
             None \<Rightarrow> s\<lparr>pc := Crashed\<rparr>
           | Some d \<Rightarrow> s\<lparr>runner := (runner s)\<lparr>data := d\<rparr>\<rparr>)
      | RunnerStep err \<Rightarrow> Run_step err s
      | WaitCall \<Rightarrow> wait_call s)"

fun exec :: "event list \<Rightarrow> proc \<Rightarrow> proc" where
  "exec [] s = s"
| "exec (ev # evs) s = exec evs (step ev s)"

text \<open>The process at the moment \<open>Run\<close> is invoked on a runner, nothing registered yet.\<close>

definition boot :: "HookRunner \<Rightarrow> proc" where
  "boot r = \<lparr>runner = r, registry = [], trace = [], pc = AtRegister, lastHash = '''', waited = []\<rparr>"

section \<open>Auxiliary notions for the statements\<close>


text \<open>What the runner logs and counts when \<open>Do\<close> returns.\<close>

definition outcome_obs :: "string \<Rightarrow> string option \<Rightarrow> obs list" where
  "outcome_obs name err =
     (case err of
        Some e \<Rightarrow> [LogError e ''hook failed'', CounterInc name ''error'']
      | None \<Rightarrow> [CounterInc name ''success''])"

text \<open>
  The whole trace of a runner with a completion channel that has executed the hook on \<open>h\<close>,
  seen \<open>Do\<close> return \<open>err\<close>, reported it and closed the channel.
\<close>

definition first_outcome_trace :: "string \<Rightarrow> string \<Rightarrow> string option \<Rightarrow> obs list" where
  "first_outcome_trace name h err =
     HookDo h # outcome_obs name err @ [ChanSend (err = None), ChanClose]"

text \<open>Concrete runners and states used to exercise the theorems.\<close>

definition sync_runner :: HookRunner where
  "sync_runner = NewHookRunner ''hook'' 10 NewHookData (Some (make_chan 1))"

definition async_runner :: HookRunner where
  "async_runner = NewHookRunner ''hook'' 10 NewHookData None"

definition idle_after_a :: proc where
  "idle_after_a =
     \<lparr>runner = NewHookRunner ''hook'' 10 (NewHookData\<lparr>hash := ''a''\<rparr>) None,
      registry = [hookRunCount], trace = [HookDo ''a'', CounterInc ''hook'' ''success''],
      pc = AtGet, lastHash = ''a'', waited = []\<rparr>"

text \<open>No execution has succeeded so far: the success counter was never incremented.\<close>

definition no_success :: "obs list \<Rightarrow> bool" where
  "no_success t \<longleftrightarrow> (\<forall>n. CounterInc n ''success'' \<notin> set t)"

text \<open>
  The shape of the trace of a runner that has a completion channel, by the place where
  its goroutine stands.
\<close>

definition sync_shape :: "proc \<Rightarrow> bool" where
  "sync_shape s \<longleftrightarrow>
     hasCompletedOnce (runner s) \<noteq> None \<and>
     (case pc s of
        AtDo h \<Rightarrow> trace s = [HookDo h]
      | AtReport b \<Rightarrow>
          (\<exists>h err. b = (err = None) \<and> trace s = HookDo h # outcome_obs (hook (runner s)) err)
      | AtClose \<Rightarrow>
          (\<exists>h err. trace s = HookDo h # outcome_obs (hook (runner s)) err @ [ChanSend (err = None)])
      | Exited \<Rightarrow> (\<exists>h err. trace s = first_outcome_trace (hook (runner s)) h err)
      | Crashed \<Rightarrow> (\<exists>h err k. trace s = take k (first_outcome_trace (hook (runner s)) h err))
      | AtSleep \<Rightarrow> False
      | _ \<Rightarrow> trace s = [])"

text \<open>
  The completion channel and the results of \<open>WaitForCompletion\<close>, for a runner whose
  channel was empty and open when \<open>Run\<close> started. Before the send: nothing buffered,
  nothing returned to a waiter.
\<close>

definition not_sent :: "proc \<Rightarrow> bool chan \<Rightarrow> bool" where
  "not_sent s c \<longleftrightarrow>
     (\<forall>b. ChanSend b \<notin> set (trace s)) \<and> chan_buf c = [] \<and> \<not> chan_closed c \<and>
     waited s = [] \<and> pc s \<noteq> AtClose \<and> pc s \<noteq> Exited"

text \<open>
  After the send of \<open>b\<close>: the value is still buffered, or the first call that returned got
  it and every later result is the error of the zero value.
\<close>

definition sent :: "proc \<Rightarrow> bool chan \<Rightarrow> bool \<Rightarrow> bool" where
  "sent s c b \<longleftrightarrow>
     ChanSend b \<in> set (trace s) \<and>
     (pc s = AtClose \<and> \<not> chan_closed c \<or> pc s = Exited \<or> pc s = Crashed) \<and>
     (chan_buf c = [b] \<and> waited s = [] \<or>
      chan_buf c = [] \<and> waited s \<noteq> [] \<and> hd (waited s) = completion_error b \<and>
        (\<forall>y\<in>set (tl (waited s)). y = Some err_completed))"

definition completion_inv :: "proc \<Rightarrow> bool" where
  "completion_inv s \<longleftrightarrow>
     (\<exists>c. hasCompletedOnce (runner s) = Some c \<and> (not_sent s c \<or> (\<exists>b. sent s c b)))"

text \<open>Both runners after \<open>Send "a"\<close>, with the hook called on it and not yet returned.\<close>

definition sync_at_do :: proc where
  "sync_at_do =
     exec [RunnerStep None, SendSet ''a'', SendSelect, RunnerStep None, RunnerStep None]
       (boot sync_runner)"





text \<open>
  Runners whose completion channel is not the buffered channel of size 1: one that was
  closed before \<open>Run\<close> started, and an unbuffered one, the latter after \<open>Send "a"\<close> with
  the hook called on it and not yet returned.
\<close>

definition closed_runner :: HookRunner where
  "closed_runner =
     NewHookRunner ''hook'' 10 NewHookData
       (Some \<lparr>chan_cap = 1, chan_buf = [], chan_closed = True\<rparr>)"

definition unbuffered_at_do :: proc where
  "unbuffered_at_do =
     exec [RunnerStep None, SendSet ''a'', SendSelect, RunnerStep None, RunnerStep None]
       (boot (NewHookRunner ''hook'' 10 NewHookData (Some (make_chan 0))))"

section \<open>Basic facts about the steps\<close>

lemmas model_defs =
  step_def Run_step_def wait_call_def WaitForCompletion_def completion_error_def
  hookData_select_def hookData_send_def hookData_set_def hookData_get_def hookData_events_def
  chan_send_def chan_recv_def chan_close_def MustRegister_def updateHookRunCountMetric_def

lemma step_hash:
  "hash (data (runner (step ev s))) =
     (case ev of SendSet h \<Rightarrow> if pc s = Crashed then hash (data (runner s)) else h
      | _ \<Rightarrow> hash (data (runner s)))"
  by (cases ev; cases "pc s")
     (auto simp: model_defs Let_def split: option.splits send_result.splits list.splits)

lemma exec_hash_no_set:
  "\<forall>ev\<in>set evs. \<forall>x. ev \<noteq> SendSet x \<Longrightarrow>
   hookData_get (data (runner (exec evs s))) = hookData_get (data (runner s))"
proof (induction evs arbitrary: s)
  case Nil
  show ?case by simp
next
  case (Cons ev evs)
  have "hash (data (runner (step ev s))) = hash (data (runner s))"
    using Cons.prems by (cases ev) (simp_all add: step_hash)
  with Cons show ?case by (simp add: hookData_get_def)
qed


lemma slot_open_step:
  "\<not> chan_closed (ch (data (runner s))) \<Longrightarrow> \<not> chan_closed (ch (data (runner (step ev s))))"
  by (cases ev; cases "pc s")
     (auto simp: model_defs Let_def split: option.splits send_result.splits list.splits)

lemma slot_open_exec:
  "\<not> chan_closed (ch (data (runner s))) \<Longrightarrow> \<not> chan_closed (ch (data (runner (exec evs s))))"
  by (induction evs arbitrary: s) (simp_all add: slot_open_step)

section \<open>The trace of a runner with a completion channel\<close>

lemma sync_shape_prefix:
  assumes "sync_shape s"
  shows "\<exists>h err k. trace s = take k (first_outcome_trace (hook (runner s)) h err)"
proof (cases "pc s")
  case (AtDo h)
  then have "trace s = take 1 (first_outcome_trace (hook (runner s)) h None)"
    using assms by (simp add: sync_shape_def first_outcome_trace_def)
  then show ?thesis by blast
next
  case (AtReport b)
  then obtain h err where "trace s = HookDo h # outcome_obs (hook (runner s)) err"
    using assms by (auto simp: sync_shape_def)
  then have "trace s = take (Suc (length (outcome_obs (hook (runner s)) err)))
               (first_outcome_trace (hook (runner s)) h err)"
    by (simp add: first_outcome_trace_def)
  then show ?thesis by blast
next
  case AtClose
  then obtain h err where
    "trace s = HookDo h # outcome_obs (hook (runner s)) err @ [ChanSend (err = None)]"
    using assms by (auto simp: sync_shape_def)
  then have "trace s = take (Suc (Suc (length (outcome_obs (hook (runner s)) err))))
               (first_outcome_trace (hook (runner s)) h err)"
    by (simp add: first_outcome_trace_def)
  then show ?thesis by blast
next
  case Exited
  then obtain h err where "trace s = first_outcome_trace (hook (runner s)) h err"
    using assms by (auto simp: sync_shape_def)
  then have "trace s = take (length (first_outcome_trace (hook (runner s)) h err))
               (first_outcome_trace (hook (runner s)) h err)"
    by simp
  then show ?thesis by blast
next
  case Crashed
  then show ?thesis using assms by (simp add: sync_shape_def)
next
  case AtSleep
  then show ?thesis using assms by (simp add: sync_shape_def)
next
  case AtRegister
  then have "trace s = take 0 (first_outcome_trace (hook (runner s)) [] None)"
    using assms by (simp add: sync_shape_def)
  then show ?thesis by blast
next
  case AtRange
  then have "trace s = take 0 (first_outcome_trace (hook (runner s)) [] None)"
    using assms by (simp add: sync_shape_def)
  then show ?thesis by blast
next
  case AtGet
  then have "trace s = take 0 (first_outcome_trace (hook (runner s)) [] None)"
    using assms by (simp add: sync_shape_def)
  then show ?thesis by blast
next
  case Returned
  then have "trace s = take 0 (first_outcome_trace (hook (runner s)) [] None)"
    using assms by (simp add: sync_shape_def)
  then show ?thesis by blast
qed

lemma sync_shape_crash: "sync_shape s \<Longrightarrow> sync_shape (s\<lparr>pc := Crashed\<rparr>)"
  using sync_shape_prefix [of s] by (simp add: sync_shape_def)

lemma sync_shape_env:
  assumes "sync_shape s"
  shows "sync_shape (s\<lparr>runner := (runner s)\<lparr>data := d\<rparr>\<rparr>)"
  using assms by (simp add: sync_shape_def split: pc.splits)

lemma sync_shape_Run_step:
  assumes "sync_shape s"
  shows "sync_shape (Run_step err s)"
proof (cases "pc s")
  case AtRegister
  show ?thesis
  proof (cases "hookRunCount \<in> set (registry s)")
    case True
    then have "Run_step err s = s\<lparr>pc := Crashed\<rparr>"
      using AtRegister by (simp add: Run_step_def MustRegister_def)
    then show ?thesis using sync_shape_crash [OF assms] by simp
  next
    case False
    then show ?thesis using AtRegister assms
      by (simp add: Run_step_def MustRegister_def sync_shape_def)
  qed
next
  case AtRange
  then show ?thesis using assms
    by (auto simp: Run_step_def sync_shape_def chan_recv_def hookData_events_def split: list.splits)
next
  case AtGet
  then show ?thesis using assms
    by (auto simp: Run_step_def sync_shape_def Let_def)
next
  case (AtDo h)
  then show ?thesis using assms
    by (cases err) (auto simp: Run_step_def sync_shape_def updateHookRunCountMetric_def outcome_obs_def)
next
  case (AtReport b)
  from assms obtain c where c: "hasCompletedOnce (runner s) = Some c"
    by (auto simp: sync_shape_def)
  show ?thesis
  proof (cases "chan_send b c")
    case SendPanics
    then have "Run_step err s = s\<lparr>pc := Crashed\<rparr>"
      using AtReport c by (simp add: Run_step_def)
    then show ?thesis using sync_shape_crash [OF assms] by simp
  next
    case SendBlocks
    then have "Run_step err s = s"
      using AtReport c by (simp add: Run_step_def)
    then show ?thesis using assms by simp
  next
    case (Sent c')
    then have "Run_step err s =
        s\<lparr>runner := (runner s)\<lparr>hasCompletedOnce := Some c'\<rparr>,
          trace := trace s @ [ChanSend b], pc := AtClose\<rparr>"
      using AtReport c by (simp add: Run_step_def)
    then show ?thesis using assms AtReport
      by (auto simp: sync_shape_def)
  qed
next
  case AtClose
  from assms obtain c where c: "hasCompletedOnce (runner s) = Some c"
    by (auto simp: sync_shape_def)
  show ?thesis
  proof (cases "chan_close c")
    case None
    then have "Run_step err s = s\<lparr>pc := Crashed\<rparr>"
      using AtClose c by (simp add: Run_step_def)
    then show ?thesis using sync_shape_crash [OF assms] by simp
  next
    case (Some c')
    then have "Run_step err s =
        s\<lparr>runner := (runner s)\<lparr>hasCompletedOnce := Some c'\<rparr>,
          trace := trace s @ [ChanClose], pc := Exited\<rparr>"
      using AtClose c by (simp add: Run_step_def)
    then show ?thesis using assms AtClose
      by (auto simp: sync_shape_def first_outcome_trace_def)
  qed
next
  case AtSleep
  then show ?thesis using assms by (simp add: sync_shape_def)
next
  case Returned
  then show ?thesis using assms by (simp add: Run_step_def)
next
  case Exited
  then show ?thesis using assms by (simp add: Run_step_def)
next
  case Crashed
  then show ?thesis using assms by (simp add: Run_step_def)
qed

lemma sync_shape_wait:
  assumes "sync_shape s"
  shows "sync_shape (wait_call s)"
  using assms
  by (cases "pc s")
     (auto simp: wait_call_def WaitForCompletion_def sync_shape_def chan_recv_def
           split: list.splits option.splits)

lemma sync_shape_step:
  assumes "sync_shape s"
  shows "sync_shape (step ev s)"
proof (cases ev)
  case (SendSet h)
  then show ?thesis using assms sync_shape_env [OF assms] by (simp add: step_def)
next
  case SendSelect
  show ?thesis
  proof (cases "hookData_select (data (runner s))")
    case None
    then have "step ev s = s \<or> step ev s = s\<lparr>pc := Crashed\<rparr>"
      using SendSelect by (simp add: step_def)
    then show ?thesis using assms sync_shape_crash [OF assms] by auto
  next
    case (Some d)
    then have "step ev s = s \<or> step ev s = s\<lparr>runner := (runner s)\<lparr>data := d\<rparr>\<rparr>"
      using SendSelect by (simp add: step_def)
    then show ?thesis using assms sync_shape_env [OF assms] by auto
  qed
next
  case (RunnerStep err)
  then show ?thesis using assms sync_shape_Run_step [OF assms] by (simp add: step_def)
next
  case WaitCall
  then show ?thesis using assms sync_shape_wait [OF assms] by (simp add: step_def)
qed

lemma sync_shape_exec: "sync_shape s \<Longrightarrow> sync_shape (exec evs s)"
  by (induction evs arbitrary: s) (simp_all add: sync_shape_step)

lemma hook_step: "hook (runner (step ev s)) = hook (runner s)"
  by (cases ev; cases "pc s")
     (auto simp: model_defs Let_def split: option.splits send_result.splits list.splits)

lemma hook_exec: "hook (runner (exec evs s)) = hook (runner s)"
  by (induction evs arbitrary: s) (simp_all add: hook_step)

lemma sync_trace_prefix:
  assumes "hasCompletedOnce r \<noteq> None"
  shows "\<exists>h err k. trace (exec evs (boot r)) = take k (first_outcome_trace (hook r) h err)"
proof -
  have "sync_shape (boot r)"
    using assms by (simp add: sync_shape_def boot_def)
  then have "sync_shape (exec evs (boot r))"
    by (rule sync_shape_exec)
  from sync_shape_prefix [OF this] show ?thesis
    by (simp add: hook_exec) (simp add: boot_def)
qed

section \<open>Reporting the first outcome and stopping\<close>

lemma sync_outcome_exits:
  assumes "hasCompletedOnce (runner s) = Some c" and "\<not> chan_closed c"
    and "length (chan_buf c) < chan_cap c" and "pc s = AtDo h"
  shows "pc (exec [RunnerStep err, RunnerStep x, RunnerStep y] s) = Exited \<and>
         trace (exec [RunnerStep err, RunnerStep x, RunnerStep y] s) =
           trace s @ outcome_obs (hook (runner s)) err @ [ChanSend (err = None), ChanClose] \<and>
         hasCompletedOnce (runner (exec [RunnerStep err, RunnerStep x, RunnerStep y] s)) =
           Some (c\<lparr>chan_buf := chan_buf c @ [err = None], chan_closed := True\<rparr>) \<and>
         lastHash (exec [RunnerStep err, RunnerStep x, RunnerStep y] s) =
           (if err = None then h else lastHash s)"
  using assms
  by (cases err) (simp_all add: model_defs outcome_obs_def)

lemma sync_handoff_exits:
  assumes "hasCompletedOnce (runner s) = Some c" and "\<not> chan_closed c"
    and "chan_buf c = []" and "pc s = AtDo h"
  shows "pc (exec [RunnerStep err, WaitCall, RunnerStep x] s) = Exited \<and>
         trace (exec [RunnerStep err, WaitCall, RunnerStep x] s) =
           trace s @ outcome_obs (hook (runner s)) err @ [ChanSend (err = None), ChanClose] \<and>
         hasCompletedOnce (runner (exec [RunnerStep err, WaitCall, RunnerStep x] s)) =
           Some (c\<lparr>chan_closed := True\<rparr>) \<and>
         waited (exec [RunnerStep err, WaitCall, RunnerStep x] s) =
           waited s @ [completion_error (err = None)]"
  using assms
  by (cases err) (simp_all add: model_defs outcome_obs_def)

lemma stopped_step:
  assumes "pc s = Exited \<or> pc s = Crashed"
  shows "trace (step ev s) = trace s \<and> (pc (step ev s) = Exited \<or> pc (step ev s) = Crashed)"
  using assms
  by (cases ev)
     (auto simp: step_def Run_step_def wait_call_def WaitForCompletion_def hookData_select_def
           split: option.splits send_result.splits)

lemma stopped_exec:
  assumes "pc s = Exited \<or> pc s = Crashed"
  shows "trace (exec evs s) = trace s \<and> (pc (exec evs s) = Exited \<or> pc (exec evs s) = Crashed)"
  using assms
proof (induction evs arbitrary: s)
  case Nil
  then show ?case by simp
next
  case (Cons ev evs)
  from stopped_step [OF Cons.prems, of ev] Cons.IH [of "step ev s"]
  show ?case by simp
qed

section \<open>The completion channel and its waiters\<close>

lemma completion_inv_data:
  "completion_inv s \<Longrightarrow> completion_inv (s\<lparr>runner := (runner s)\<lparr>data := d\<rparr>\<rparr>)"
  by (simp add: completion_inv_def not_sent_def sent_def)

lemma completion_inv_crash: "completion_inv s \<Longrightarrow> completion_inv (s\<lparr>pc := Crashed\<rparr>)"
  by (auto simp: completion_inv_def not_sent_def sent_def)

lemma not_sent_Run_step:
  assumes c: "hasCompletedOnce (runner s) = Some c" and a: "not_sent s c"
  shows "completion_inv (Run_step err s)"
proof (cases "pc s")
  case AtRegister
  then show ?thesis using c a
    by (auto simp: Run_step_def MustRegister_def completion_inv_def not_sent_def)
next
  case AtRange
  then show ?thesis using c a
    by (auto simp: Run_step_def chan_recv_def hookData_events_def completion_inv_def not_sent_def
        split: list.splits)
next
  case AtGet
  then show ?thesis using c a
    by (auto simp: Run_step_def Let_def completion_inv_def not_sent_def)
next
  case (AtDo h)
  then show ?thesis using c a
    by (cases err)
       (auto simp: Run_step_def updateHookRunCountMetric_def completion_inv_def not_sent_def)
next
  case (AtReport b)
  have open_c: "\<not> chan_closed c" and empty: "chan_buf c = []"
    using a by (simp_all add: not_sent_def)
  show ?thesis
  proof (cases "0 < chan_cap c")
    case True
    then have "Run_step err s =
        s\<lparr>runner := (runner s)\<lparr>hasCompletedOnce := Some (c\<lparr>chan_buf := [b]\<rparr>)\<rparr>,
          trace := trace s @ [ChanSend b], pc := AtClose\<rparr>"
      using AtReport c open_c empty by (simp add: Run_step_def chan_send_def)
    moreover have "sent (s\<lparr>runner := (runner s)\<lparr>hasCompletedOnce := Some (c\<lparr>chan_buf := [b]\<rparr>)\<rparr>,
          trace := trace s @ [ChanSend b], pc := AtClose\<rparr>) (c\<lparr>chan_buf := [b]\<rparr>) b"
      using a by (simp add: sent_def not_sent_def)
    ultimately show ?thesis by (auto simp: completion_inv_def)
  next
    case False
    then have "Run_step err s = s"
      using AtReport c open_c empty by (simp add: Run_step_def chan_send_def)
    then show ?thesis using c a by (auto simp: completion_inv_def)
  qed
next
  case AtClose
  then show ?thesis using a by (simp add: not_sent_def)
next
  case AtSleep
  then show ?thesis using c a
    by (auto simp: Run_step_def completion_inv_def not_sent_def)
next
  case Returned
  then show ?thesis using c a by (auto simp: Run_step_def completion_inv_def)
next
  case Exited
  then show ?thesis using a by (simp add: not_sent_def)
next
  case Crashed
  then show ?thesis using c a by (auto simp: Run_step_def completion_inv_def)
qed

lemma sent_Run_step:
  assumes c: "hasCompletedOnce (runner s) = Some c" and b: "sent s c b"
  shows "completion_inv (Run_step err s)"
proof -
  consider "pc s = AtClose" "\<not> chan_closed c" | "pc s = Exited" | "pc s = Crashed"
    using b by (auto simp: sent_def)
  then show ?thesis
  proof cases
    case 1
    then have "Run_step err s =
        s\<lparr>runner := (runner s)\<lparr>hasCompletedOnce := Some (c\<lparr>chan_closed := True\<rparr>)\<rparr>,
          trace := trace s @ [ChanClose], pc := Exited\<rparr>"
      using c by (simp add: Run_step_def chan_close_def)
    moreover have "sent (s\<lparr>runner := (runner s)\<lparr>hasCompletedOnce := Some (c\<lparr>chan_closed := True\<rparr>)\<rparr>,
          trace := trace s @ [ChanClose], pc := Exited\<rparr>) (c\<lparr>chan_closed := True\<rparr>) b"
      using b by (simp add: sent_def)
    ultimately show ?thesis by (auto simp: completion_inv_def)
  next
    case 2
    then have "Run_step err s = s" by (simp add: Run_step_def)
    then show ?thesis using c b by (auto simp: completion_inv_def)
  next
    case 3
    then have "Run_step err s = s" by (simp add: Run_step_def)
    then show ?thesis using c b by (auto simp: completion_inv_def)
  qed
qed

lemma not_sent_wait_call:
  assumes c: "hasCompletedOnce (runner s) = Some c" and a: "not_sent s c"
  shows "completion_inv (wait_call s)"
proof -
  have w: "WaitForCompletion (runner s) = None"
    using c a by (simp add: WaitForCompletion_def chan_recv_def not_sent_def)
  show ?thesis
  proof (cases "pc s")
    case (AtReport b)
    then have "wait_call s =
        s\<lparr>trace := trace s @ [ChanSend b], pc := AtClose,
          waited := waited s @ [completion_error b]\<rparr>"
      using w by (simp add: wait_call_def)
    moreover have "sent (s\<lparr>trace := trace s @ [ChanSend b], pc := AtClose,
          waited := waited s @ [completion_error b]\<rparr>) c b"
      using a by (simp add: sent_def not_sent_def)
    ultimately show ?thesis using c by (auto simp: completion_inv_def)
  qed (use w c a in \<open>auto simp: wait_call_def completion_inv_def\<close>)
qed

lemma sent_wait_call:
  assumes c: "hasCompletedOnce (runner s) = Some c" and b: "sent s c b"
  shows "completion_inv (wait_call s)"
proof -
  have pcs: "pc s = AtClose \<and> \<not> chan_closed c \<or> pc s = Exited \<or> pc s = Crashed"
    and tr: "ChanSend b \<in> set (trace s)"
    using b by (simp_all add: sent_def)
  consider (buffered) "chan_buf c = [b]" "waited s = []"
    | (drained) "chan_buf c = []" "waited s \<noteq> []" "hd (waited s) = completion_error b"
        "\<forall>y\<in>set (tl (waited s)). y = Some err_completed"
    using b by (auto simp: sent_def)
  then show ?thesis
  proof cases
    case buffered
    then have "wait_call s =
        s\<lparr>runner := (runner s)\<lparr>hasCompletedOnce := Some (c\<lparr>chan_buf := []\<rparr>)\<rparr>,
          waited := [completion_error b]\<rparr>"
      using c by (simp add: wait_call_def WaitForCompletion_def chan_recv_def)
    moreover have "sent (s\<lparr>runner := (runner s)\<lparr>hasCompletedOnce := Some (c\<lparr>chan_buf := []\<rparr>)\<rparr>,
          waited := [completion_error b]\<rparr>) (c\<lparr>chan_buf := []\<rparr>) b"
      using pcs tr by (simp add: sent_def)
    ultimately show ?thesis by (auto simp: completion_inv_def)
  next
    case drained
    show ?thesis
    proof (cases "chan_closed c")
      case True
      then have "wait_call s =
          s\<lparr>runner := (runner s)\<lparr>hasCompletedOnce := Some c\<rparr>,
            waited := waited s @ [Some err_completed]\<rparr>"
        using c drained(1)
        by (simp add: wait_call_def WaitForCompletion_def chan_recv_def completion_error_def)
      moreover have "sent (s\<lparr>runner := (runner s)\<lparr>hasCompletedOnce := Some c\<rparr>,
            waited := waited s @ [Some err_completed]\<rparr>) c b"
        using pcs tr drained by (simp add: sent_def)
      ultimately show ?thesis by (auto simp: completion_inv_def)
    next
      case False
      then have w: "WaitForCompletion (runner s) = None"
        using c drained(1) by (simp add: WaitForCompletion_def chan_recv_def)
      have "wait_call s = s"
        using pcs w by (auto simp: wait_call_def)
      then show ?thesis using c b by (auto simp: completion_inv_def)
    qed
  qed
qed

lemma completion_inv_step:
  assumes "completion_inv s"
  shows "completion_inv (step ev s)"
proof (cases "pc s = Crashed")
  case True
  then show ?thesis using assms by (simp add: step_def)
next
  case False
  from assms obtain c where c: "hasCompletedOnce (runner s) = Some c"
    and ph: "not_sent s c \<or> (\<exists>b. sent s c b)"
    by (auto simp: completion_inv_def)
  show ?thesis
  proof (cases ev)
    case (SendSet h)
    then show ?thesis using False completion_inv_data [OF assms] by (simp add: step_def)
  next
    case SendSelect
    then show ?thesis
      using False completion_inv_data [OF assms] completion_inv_crash [OF assms]
      by (simp add: step_def split: option.splits)
  next
    case (RunnerStep err)
    then show ?thesis
      using False ph not_sent_Run_step [OF c] sent_Run_step [OF c] by (auto simp: step_def)
  next
    case WaitCall
    then show ?thesis
      using False ph not_sent_wait_call [OF c] sent_wait_call [OF c] by (auto simp: step_def)
  qed
qed

lemma completion_inv_exec: "completion_inv s \<Longrightarrow> completion_inv (exec evs s)"
  by (induction evs arbitrary: s) (simp_all add: completion_inv_step)

lemma completion_inv_boot:
  "hasCompletedOnce r = Some (make_chan n) \<Longrightarrow> completion_inv (boot r)"
  by (simp add: completion_inv_def not_sent_def boot_def make_chan_def)

section \<open>A runner without completion channel: the retry loop\<close>











section \<open>The slot: Send and Get\<close>

lemma send_open:
  "\<not> chan_closed (ch d) \<Longrightarrow>
   hookData_send h d =
     Some (d\<lparr>hash := h,
             ch := (if length (chan_buf (ch d)) < chan_cap (ch d)
                    then (ch d)\<lparr>chan_buf := chan_buf (ch d) @ [()]\<rparr> else ch d)\<rparr>)"
  by (simp add: hookData_send_def hookData_select_def hookData_set_def chan_send_def)

lemma sends_pending:
  "ch d = \<lparr>chan_cap = 1, chan_buf = [()], chan_closed = False\<rparr> \<Longrightarrow>
   hookData_sends hs d = Some (d\<lparr>hash := (if hs = [] then hash d else last hs)\<rparr>)"
proof (induction hs arbitrary: d)
  case Nil
  show ?case by simp
next
  case (Cons h hs)
  have "hookData_send h d = Some (d\<lparr>hash := h\<rparr>)"
    using Cons.prems by (simp add: send_open)
  moreover have "ch (d\<lparr>hash := h\<rparr>) = \<lparr>chan_cap = 1, chan_buf = [()], chan_closed = False\<rparr>"
    using Cons.prems by simp
  ultimately show ?case using Cons.IH [of "d\<lparr>hash := h\<rparr>"] by simp
qed

lemma sends_fresh:
  "hookData_sends (h # hs) NewHookData =
     Some \<lparr>ch = \<lparr>chan_cap = 1, chan_buf = [()], chan_closed = False\<rparr>, hash = last (h # hs)\<rparr>"
proof -
  have "hookData_send h NewHookData =
          Some \<lparr>ch = \<lparr>chan_cap = 1, chan_buf = [()], chan_closed = False\<rparr>, hash = h\<rparr>"
    by (simp add: send_open NewHookData_def make_chan_def)
  then show ?thesis
    using sends_pending [of "\<lparr>ch = \<lparr>chan_cap = 1, chan_buf = [()], chan_closed = False\<rparr>, hash = h\<rparr>" hs]
    by simp
qed

text \<open>
  C7. On a slot whose channel is open, \<open>send\<close> returns (no panic, no wait): it stores its
  argument over the previous value and adds one notification unless the buffer is full,
  in which case the notification is dropped. After any non-empty sequence of sends on a
  fresh slot (capacity 1) the slot holds the last value sent and exactly one pending
  notification. No step of the runner or of a waiter changes the stored value: \<open>get\<close>
  returns it until the next \<open>set\<close> of a producer. No event closes the slot's channel, so
  in the running process \<open>send\<close> always finds it open.
\<close>

theorem send_keeps_only_latest:
  "(\<not> chan_closed (ch d) \<longrightarrow>
      hookData_send h d =
        Some (d\<lparr>hash := h,
                ch := (if length (chan_buf (ch d)) < chan_cap (ch d)
                       then (ch d)\<lparr>chan_buf := chan_buf (ch d) @ [()]\<rparr> else ch d)\<rparr>)) \<and>
   hookData_sends (hs @ [h]) NewHookData =
     Some \<lparr>ch = \<lparr>chan_cap = 1, chan_buf = [()], chan_closed = False\<rparr>, hash = h\<rparr> \<and>
   ((\<forall>ev\<in>set evs. \<forall>x. ev \<noteq> SendSet x) \<longrightarrow>
      hookData_get (data (runner (exec evs s))) = hookData_get (data (runner s))) \<and>
   (\<not> chan_closed (ch (data (runner s))) \<longrightarrow>
      \<not> chan_closed (ch (data (runner (exec evs s)))))"
proof (intro conjI impI)
  assume "\<not> chan_closed (ch d)"
  then show "hookData_send h d =
        Some (d\<lparr>hash := h,
                ch := (if length (chan_buf (ch d)) < chan_cap (ch d)
                       then (ch d)\<lparr>chan_buf := chan_buf (ch d) @ [()]\<rparr> else ch d)\<rparr>)"
    by (rule send_open)
next
  show "hookData_sends (hs @ [h]) NewHookData =
     Some \<lparr>ch = \<lparr>chan_cap = 1, chan_buf = [()], chan_closed = False\<rparr>, hash = h\<rparr>"
    using sends_fresh [of "hd (hs @ [h])" "tl (hs @ [h])"] by simp
next
  assume "\<forall>ev\<in>set evs. \<forall>x. ev \<noteq> SendSet x"
  then show "hookData_get (data (runner (exec evs s))) = hookData_get (data (runner s))"
    by (rule exec_hash_no_set)
next
  assume "\<not> chan_closed (ch (data (runner s)))"
  then show "\<not> chan_closed (ch (data (runner (exec evs s))))"
    by (rule slot_open_exec)
qed

theorem send_keeps_only_latest_witness:
  "hookData_send ''b'' NewHookData =
     Some \<lparr>ch = \<lparr>chan_cap = 1, chan_buf = [()], chan_closed = False\<rparr>, hash = ''b''\<rparr> \<and>
   hookData_sends [''a'', ''b''] NewHookData =
     Some \<lparr>ch = \<lparr>chan_cap = 1, chan_buf = [()], chan_closed = False\<rparr>, hash = ''b''\<rparr> \<and>
   hookData_get (data (runner (exec [SendSelect, RunnerStep None, WaitCall]
      (boot (NewHookRunner ''hook'' 10 (NewHookData\<lparr>hash := ''b''\<rparr>) None))))) = ''b''"
  using send_keeps_only_latest [of NewHookData "''b''" "[''a'']" "[SendSelect, RunnerStep None, WaitCall]"
          "boot (NewHookRunner ''hook'' 10 (NewHookData\<lparr>hash := ''b''\<rparr>) None)"]
  by (simp add: NewHookData_def make_chan_def boot_def NewHookRunner_def hookData_get_def)

section \<open>Skipping a value that was already processed\<close>

lemma quiet_step:
  assumes "pc s = AtRange \<or> pc s = AtGet \<or> pc s = Returned \<or> pc s = Crashed"
    and "hash (data (runner s)) = lastHash s"
    and "\<forall>h. ev = SendSet h \<longrightarrow> h = lastHash s"
  shows "(pc (step ev s) = AtRange \<or> pc (step ev s) = AtGet \<or> pc (step ev s) = Returned \<or>
          pc (step ev s) = Crashed) \<and>
         hash (data (runner (step ev s))) = lastHash s \<and>
         lastHash (step ev s) = lastHash s \<and> trace (step ev s) = trace s"
  using assms
  by (cases ev; cases "pc s")
     (auto simp: model_defs Let_def split: option.splits send_result.splits list.splits)

lemma quiet_exec:
  assumes "pc s = AtRange \<or> pc s = AtGet \<or> pc s = Returned \<or> pc s = Crashed"
    and "hash (data (runner s)) = lastHash s"
    and "\<forall>ev\<in>set evs. \<forall>h. ev = SendSet h \<longrightarrow> h = lastHash s"
  shows "trace (exec evs s) = trace s \<and> lastHash (exec evs s) = lastHash s"
  using assms
proof (induction evs arbitrary: s)
  case Nil
  show ?case by simp
next
  case (Cons ev evs)
  have ev: "\<forall>h. ev = SendSet h \<longrightarrow> h = lastHash s"
    using Cons.prems(3) by simp
  note st = quiet_step [OF Cons.prems(1) Cons.prems(2) ev]
  have "trace (exec evs (step ev s)) = trace (step ev s) \<and>
        lastHash (exec evs (step ev s)) = lastHash (step ev s)"
  proof (rule Cons.IH)
    show "pc (step ev s) = AtRange \<or> pc (step ev s) = AtGet \<or> pc (step ev s) = Returned \<or>
          pc (step ev s) = Crashed"
      using st by blast
    show "hash (data (runner (step ev s))) = lastHash (step ev s)"
      using st by simp
    have "lastHash (step ev s) = lastHash s"
      using st by simp
    then show "\<forall>x\<in>set evs. \<forall>h. x = SendSet h \<longrightarrow> h = lastHash (step ev s)"
      using Cons.prems(3) by simp
  qed
  with st show ?case by simp
qed

lemma skip_step:
  "pc s = AtGet \<Longrightarrow> hookData_get (data (runner s)) = lastHash s \<Longrightarrow>
   step (RunnerStep err) s = s\<lparr>pc := AtRange\<rparr>"
  by (simp add: step_def Run_step_def)

text \<open>
  C6. When the value fetched at the top of the retry loop equals \<open>lastHash\<close>, the runner
  does not call the hook and goes back to waiting for the next event. From there on, as
  long as producers publish no other value, nothing at all is added to the trace: no
  call of the hook, whatever the events.
\<close>

theorem equal_value_is_skipped:
  "(pc s = AtGet \<and> hookData_get (data (runner s)) = lastHash s \<longrightarrow>
      step (RunnerStep err) s = s\<lparr>pc := AtRange\<rparr>) \<and>
   ((pc s = AtRange \<or> pc s = AtGet) \<and> hookData_get (data (runner s)) = lastHash s \<and>
    (\<forall>ev\<in>set evs. \<forall>h. ev = SendSet h \<longrightarrow> h = lastHash s) \<longrightarrow>
      trace (exec evs s) = trace s \<and> lastHash (exec evs s) = lastHash s)"
  using skip_step [of s err] quiet_exec [of s evs]
  by (auto simp: hookData_get_def)

theorem equal_value_is_skipped_witness:
  "step (RunnerStep None) idle_after_a = idle_after_a\<lparr>pc := AtRange\<rparr> \<and>
   trace (exec [SendSet ''a'', SendSelect, RunnerStep None, RunnerStep None, RunnerStep None,
                SendSet ''a'', SendSelect, RunnerStep None, RunnerStep None] idle_after_a) =
     [HookDo ''a'', CounterInc ''hook'' ''success'']"
  using equal_value_is_skipped [of idle_after_a None
          "[SendSet ''a'', SendSelect, RunnerStep None, RunnerStep None, RunnerStep None,
            SendSet ''a'', SendSelect, RunnerStep None, RunnerStep None]"]
  by (simp add: idle_after_a_def NewHookRunner_def NewHookData_def hookData_get_def)

section \<open>The empty string as first value\<close>

lemma fresh_step:
  assumes "pc s = AtRegister \<or> pc s = AtRange \<or> pc s = AtGet \<or> pc s = Returned \<or> pc s = Crashed"
    and "hash (data (runner s)) = ''''" and "lastHash s = ''''" and "trace s = []"
    and "\<forall>h. ev = SendSet h \<longrightarrow> h = ''''"
  shows "(pc (step ev s) = AtRegister \<or> pc (step ev s) = AtRange \<or> pc (step ev s) = AtGet \<or>
          pc (step ev s) = Returned \<or> pc (step ev s) = Crashed) \<and>
         hash (data (runner (step ev s))) = '''' \<and> lastHash (step ev s) = '''' \<and>
         trace (step ev s) = []"
  using assms
  by (cases ev; cases "pc s")
     (auto simp: model_defs Let_def split: option.splits send_result.splits list.splits)

lemma fresh_exec:
  assumes "pc s = AtRegister \<or> pc s = AtRange \<or> pc s = AtGet \<or> pc s = Returned \<or> pc s = Crashed"
    and "hash (data (runner s)) = ''''" and "lastHash s = ''''" and "trace s = []"
    and "\<forall>x\<in>set evs. \<forall>h. x = SendSet h \<longrightarrow> h = ''''"
  shows "trace (exec evs s) = []"
  using assms
proof (induction evs arbitrary: s)
  case Nil
  then show ?case by simp
next
  case (Cons ev evs)
  have ev: "\<forall>h. ev = SendSet h \<longrightarrow> h = ''''"
    using Cons.prems(5) by simp
  note st = fresh_step [OF Cons.prems(1-4) ev]
  have "trace (exec evs (step ev s)) = []"
    using st Cons.prems(5) by (intro Cons.IH) simp_all
  then show ?case by simp
qed

lemma unprocessed_step:
  assumes "no_success (trace s) \<longrightarrow> lastHash s = '''' \<and> HookDo '''' \<notin> set (trace s)"
  shows "no_success (trace (step ev s)) \<longrightarrow>
           lastHash (step ev s) = '''' \<and> HookDo '''' \<notin> set (trace (step ev s))"
  using assms
  by (cases ev; cases "pc s")
     (auto simp: model_defs no_success_def Let_def split: option.splits send_result.splits list.splits)

lemma unprocessed_exec:
  assumes "no_success (trace s) \<longrightarrow> lastHash s = '''' \<and> HookDo '''' \<notin> set (trace s)"
  shows "no_success (trace (exec evs s)) \<longrightarrow>
           lastHash (exec evs s) = '''' \<and> HookDo '''' \<notin> set (trace (exec evs s))"
  using assms
proof (induction evs arbitrary: s)
  case Nil
  then show ?case by simp
next
  case (Cons ev evs)
  show ?case using Cons.IH [OF unprocessed_step [OF Cons.prems]] by simp
qed

text \<open>
  C8. \<open>lastHash\<close> starts as the empty string. On a slot that starts with the empty string,
  as long as producers publish nothing but the empty string the runner's trace stays
  empty: the hook is never called. More generally, for any runner and any events, the
  hook is not called with the empty string before some execution has succeeded.
\<close>

theorem empty_value_never_executed:
  "(hookData_get (data r) = '''' \<and> (\<forall>ev\<in>set evs. \<forall>h. ev = SendSet h \<longrightarrow> h = '''') \<longrightarrow>
      trace (exec evs (boot r)) = []) \<and>
   (no_success (trace (exec evs (boot r))) \<longrightarrow> HookDo '''' \<notin> set (trace (exec evs (boot r))))"
proof (intro conjI impI)
  assume "hookData_get (data r) = '''' \<and> (\<forall>ev\<in>set evs. \<forall>h. ev = SendSet h \<longrightarrow> h = '''')"
  then show "trace (exec evs (boot r)) = []"
    by (intro fresh_exec) (simp_all add: boot_def hookData_get_def)
next
  assume "no_success (trace (exec evs (boot r)))"
  moreover have "no_success (trace (boot r)) \<longrightarrow>
      lastHash (boot r) = '''' \<and> HookDo '''' \<notin> set (trace (boot r))"
    by (simp add: boot_def)
  ultimately show "HookDo '''' \<notin> set (trace (exec evs (boot r)))"
    using unprocessed_exec [of "boot r" evs] by blast
qed

theorem empty_value_never_executed_witness:
  "trace (exec [RunnerStep None, SendSet '''', SendSelect, RunnerStep None, RunnerStep None,
                RunnerStep None] (boot async_runner)) = [] \<and>
   HookDo '''' \<notin> set (trace (exec [RunnerStep None, SendSet ''a'', SendSelect, RunnerStep None,
      RunnerStep None, RunnerStep (Some ''boom''), RunnerStep None, SendSet '''', SendSelect, RunnerStep None,
      RunnerStep None] (boot async_runner)))"
proof -
  have t: "trace (exec [RunnerStep None, SendSet ''a'', SendSelect, RunnerStep None,
      RunnerStep None, RunnerStep (Some ''boom''), RunnerStep None, SendSet '''', SendSelect, RunnerStep None,
      RunnerStep None] (boot async_runner)) =
      [HookDo ''a'', LogError ''boom'' ''hook failed'', CounterInc ''hook'' ''error'', Sleep 10]"
    by code_simp
  have h: "hookData_get (data async_runner) = ''''"
    by code_simp
  show ?thesis
    using empty_value_never_executed [of async_runner
        "[RunnerStep None, SendSet '''', SendSelect, RunnerStep None, RunnerStep None, RunnerStep None]"]
      empty_value_never_executed [of async_runner
        "[RunnerStep None, SendSet ''a'', SendSelect, RunnerStep None,
          RunnerStep None, RunnerStep (Some ''boom''), RunnerStep None, SendSet '''', SendSelect,
          RunnerStep None, RunnerStep None]"]
      h t
    by (simp add: no_success_def)
qed

section \<open>Registering the counter\<close>

lemma registry_step:
  "hookRunCount \<in> set (registry s) \<Longrightarrow> hookRunCount \<in> set (registry (step ev s))"
  by (cases ev; cases "pc s")
     (auto simp: model_defs Let_def split: option.splits send_result.splits list.splits)

lemma registry_exec:
  "hookRunCount \<in> set (registry s) \<Longrightarrow> hookRunCount \<in> set (registry (exec evs s))"
  by (induction evs arbitrary: s) (simp_all add: registry_step)

lemma register_twice:
  "hookRunCount \<in> set (registry s) \<Longrightarrow> pc s = AtRegister \<Longrightarrow>
   step (RunnerStep err) s = s\<lparr>pc := Crashed\<rparr>"
  by (simp add: step_def Run_step_def MustRegister_def)

lemma register_first:
  "step (RunnerStep err) (boot r) = (boot r)\<lparr>registry := [hookRunCount], pc := AtRange\<rparr>"
  by (simp add: step_def Run_step_def MustRegister_def boot_def)

text \<open>
  C10. The first step of \<open>Run\<close> registers the counter. Wherever the counter is already
  registered, the first step of an invocation of \<open>Run\<close> is the panic of \<open>MustRegister\<close>:
  the process has crashed, no notification was consumed and nothing was added to the
  trace. In particular this is what happens to a second invocation (on any runner \<open>r2\<close>)
  made at any time after the first invocation has registered.
\<close>

theorem second_Run_panics_at_registration:
  "step (RunnerStep err) (boot r) = (boot r)\<lparr>registry := [hookRunCount], pc := AtRange\<rparr> \<and>
   (hookRunCount \<in> set (registry s) \<and> pc s = AtRegister \<longrightarrow>
      step (RunnerStep err) s = s\<lparr>pc := Crashed\<rparr>) \<and>
   step (RunnerStep err2)
     ((exec evs (step (RunnerStep err) (boot r)))\<lparr>runner := r2, pc := AtRegister\<rparr>) =
     (exec evs (step (RunnerStep err) (boot r)))\<lparr>runner := r2, pc := Crashed\<rparr>"
proof (intro conjI impI)
  show "step (RunnerStep err) (boot r) = (boot r)\<lparr>registry := [hookRunCount], pc := AtRange\<rparr>"
    by (rule register_first)
next
  assume "hookRunCount \<in> set (registry s) \<and> pc s = AtRegister"
  then show "step (RunnerStep err) s = s\<lparr>pc := Crashed\<rparr>"
    by (simp add: register_twice)
next
  let ?s = "exec evs (step (RunnerStep err) (boot r))"
  have "hookRunCount \<in> set (registry ?s)"
    by (rule registry_exec) (simp add: register_first)
  then show "step (RunnerStep err2) (?s\<lparr>runner := r2, pc := AtRegister\<rparr>) = ?s\<lparr>runner := r2, pc := Crashed\<rparr>"
    using register_twice [of "?s\<lparr>runner := r2, pc := AtRegister\<rparr>" err2] by simp
qed

theorem second_Run_panics_at_registration_witness:
  "step (RunnerStep None) (boot async_runner) =
     (boot async_runner)\<lparr>registry := [hookRunCount], pc := AtRange\<rparr> \<and>
   step (RunnerStep None) ((boot sync_runner)\<lparr>registry := [hookRunCount]\<rparr>) =
     (boot sync_runner)\<lparr>registry := [hookRunCount], pc := Crashed\<rparr> \<and>
   step (RunnerStep None)
     ((exec [SendSet ''a'', SendSelect, RunnerStep None]
        (step (RunnerStep None) (boot async_runner)))\<lparr>runner := sync_runner, pc := AtRegister\<rparr>) =
     (exec [SendSet ''a'', SendSelect, RunnerStep None]
        (step (RunnerStep None) (boot async_runner)))\<lparr>runner := sync_runner, pc := Crashed\<rparr>"
proof -
  have h: "hookRunCount \<in> set (registry ((boot sync_runner)\<lparr>registry := [hookRunCount]\<rparr>)) \<and>
           pc ((boot sync_runner)\<lparr>registry := [hookRunCount]\<rparr>) = AtRegister"
    by (simp add: boot_def)
  show ?thesis
    using second_Run_panics_at_registration [where err = None and r = async_runner
          and s = "(boot sync_runner)\<lparr>registry := [hookRunCount]\<rparr>" and ?err2.0 = None
          and evs = "[SendSet ''a'', SendSelect, RunnerStep None]" and ?r2.0 = sync_runner] h
    by blast
qed

section \<open>The completion channel is written once\<close>

lemma chan_send_in_prefix:
  assumes "ChanSend b \<in> set (take k (first_outcome_trace n h err))"
  shows "b = (err = None)"
proof -
  have "ChanSend b \<in> set (first_outcome_trace n h err)"
    using assms by (rule in_set_takeD)
  then show ?thesis
    by (cases err) (auto simp: first_outcome_trace_def outcome_obs_def)
qed

text \<open>
  C2 (amended). For a runner with a completion channel, whatever the channel and whatever
  the events, the trace is an initial part of: one call of the hook, the log and counter
  entries of its outcome, one send of that outcome on the channel, one close. So the
  channel is written at most once and closed at most once, the write carries the first
  outcome, and the close follows the write. Where the channel is open and can take the
  value, the write and the close do happen, right after the first outcome: with room in
  the buffer (a buffered channel of size 1, as the field's comment asks) the steps that
  follow the call of the hook are the outcome, the send, the close and exit; with an empty
  buffer of any capacity, also none, and a caller of \<open>WaitForCompletion\<close> waiting, the value is
  handed to that caller, then come the close and exit. Once the goroutine has exited, no
  event adds anything to the trace: no later write or close.
\<close>

theorem completion_channel_written_once:
  "(hasCompletedOnce r \<noteq> None \<longrightarrow>
      (\<exists>h err k. trace (exec evs (boot r)) = take k (first_outcome_trace (hook r) h err))) \<and>
   (hasCompletedOnce (runner s) = Some c \<and> \<not> chan_closed c \<and>
    length (chan_buf c) < chan_cap c \<and> pc s = AtDo h \<longrightarrow>
      pc (exec [RunnerStep err, RunnerStep x, RunnerStep y] s) = Exited \<and>
      trace (exec [RunnerStep err, RunnerStep x, RunnerStep y] s) =
        trace s @ outcome_obs (hook (runner s)) err @ [ChanSend (err = None), ChanClose] \<and>
      hasCompletedOnce (runner (exec [RunnerStep err, RunnerStep x, RunnerStep y] s)) =
        Some (c\<lparr>chan_buf := chan_buf c @ [err = None], chan_closed := True\<rparr>)) \<and>
   (hasCompletedOnce (runner s) = Some c \<and> \<not> chan_closed c \<and> chan_buf c = [] \<and>
    pc s = AtDo h \<longrightarrow>
      pc (exec [RunnerStep err, WaitCall, RunnerStep x] s) = Exited \<and>
      trace (exec [RunnerStep err, WaitCall, RunnerStep x] s) =
        trace s @ outcome_obs (hook (runner s)) err @ [ChanSend (err = None), ChanClose] \<and>
      hasCompletedOnce (runner (exec [RunnerStep err, WaitCall, RunnerStep x] s)) =
        Some (c\<lparr>chan_closed := True\<rparr>) \<and>
      waited (exec [RunnerStep err, WaitCall, RunnerStep x] s) =
        waited s @ [completion_error (err = None)]) \<and>
   (pc t = Exited \<longrightarrow> trace (exec evs t) = trace t)"
proof (intro conjI impI)
  assume "hasCompletedOnce r \<noteq> None"
  then show "\<exists>h err k. trace (exec evs (boot r)) = take k (first_outcome_trace (hook r) h err)"
    by (rule sync_trace_prefix)
next
  assume a: "hasCompletedOnce (runner s) = Some c \<and> \<not> chan_closed c \<and>
    length (chan_buf c) < chan_cap c \<and> pc s = AtDo h"
  then have *: "hasCompletedOnce (runner s) = Some c" "\<not> chan_closed c"
    "length (chan_buf c) < chan_cap c" "pc s = AtDo h"
    by simp_all
  note e = sync_outcome_exits [OF *, of err x y]
  show "pc (exec [RunnerStep err, RunnerStep x, RunnerStep y] s) = Exited"
    using e by blast
  show "trace (exec [RunnerStep err, RunnerStep x, RunnerStep y] s) =
        trace s @ outcome_obs (hook (runner s)) err @ [ChanSend (err = None), ChanClose]"
    using e by blast
  show "hasCompletedOnce (runner (exec [RunnerStep err, RunnerStep x, RunnerStep y] s)) =
        Some (c\<lparr>chan_buf := chan_buf c @ [err = None], chan_closed := True\<rparr>)"
    using e by blast
next
  assume a: "hasCompletedOnce (runner s) = Some c \<and> \<not> chan_closed c \<and> chan_buf c = [] \<and>
    pc s = AtDo h"
  then have *: "hasCompletedOnce (runner s) = Some c" "\<not> chan_closed c"
    "chan_buf c = []" "pc s = AtDo h"
    by simp_all
  note e = sync_handoff_exits [OF *, of err x]
  show "pc (exec [RunnerStep err, WaitCall, RunnerStep x] s) = Exited"
    using e by blast
  show "trace (exec [RunnerStep err, WaitCall, RunnerStep x] s) =
        trace s @ outcome_obs (hook (runner s)) err @ [ChanSend (err = None), ChanClose]"
    using e by blast
  show "hasCompletedOnce (runner (exec [RunnerStep err, WaitCall, RunnerStep x] s)) =
        Some (c\<lparr>chan_closed := True\<rparr>)"
    using e by blast
  show "waited (exec [RunnerStep err, WaitCall, RunnerStep x] s) =
        waited s @ [completion_error (err = None)]"
    using e by blast
next
  assume "pc t = Exited"
  then show "trace (exec evs t) = trace t"
    using stopped_exec [of t evs] by simp
qed

theorem completion_channel_written_once_witness:
  "pc (exec [RunnerStep (Some ''boom''), RunnerStep None, RunnerStep None] sync_at_do) = Exited \<and>
   trace (exec [RunnerStep (Some ''boom''), RunnerStep None, RunnerStep None] sync_at_do) =
     [HookDo ''a'', LogError ''boom'' ''hook failed'', CounterInc ''hook'' ''error'',
      ChanSend False, ChanClose] \<and>
   hasCompletedOnce (runner (exec [RunnerStep (Some ''boom''), RunnerStep None, RunnerStep None]
      sync_at_do)) = Some \<lparr>chan_cap = 1, chan_buf = [False], chan_closed = True\<rparr> \<and>
   pc (exec [RunnerStep None, WaitCall, RunnerStep None] unbuffered_at_do) = Exited \<and>
   trace (exec [RunnerStep None, WaitCall, RunnerStep None] unbuffered_at_do) =
     [HookDo ''a'', CounterInc ''hook'' ''success'', ChanSend True, ChanClose] \<and>
   hasCompletedOnce (runner (exec [RunnerStep None, WaitCall, RunnerStep None] unbuffered_at_do)) =
     Some \<lparr>chan_cap = 0, chan_buf = [], chan_closed = True\<rparr> \<and>
   waited (exec [RunnerStep None, WaitCall, RunnerStep None] unbuffered_at_do) = [None]"
proof -
  have h: "hasCompletedOnce (runner sync_at_do) = Some (make_chan 1) \<and>
           \<not> chan_closed (make_chan 1 :: bool chan) \<and>
           length (chan_buf (make_chan 1 :: bool chan)) < chan_cap (make_chan 1 :: bool chan) \<and>
           pc sync_at_do = AtDo ''a''"
    by code_simp
  have t: "trace sync_at_do = [HookDo ''a'']" "hook (runner sync_at_do) = ''hook''"
    by code_simp+
  have u: "hasCompletedOnce (runner unbuffered_at_do) = Some (make_chan 0) \<and>
           \<not> chan_closed (make_chan 0 :: bool chan) \<and>
           chan_buf (make_chan 0 :: bool chan) = [] \<and>
           pc unbuffered_at_do = AtDo ''a''"
    by code_simp
  have v: "trace unbuffered_at_do = [HookDo ''a'']" "hook (runner unbuffered_at_do) = ''hook''"
    "waited unbuffered_at_do = []"
    by code_simp+
  have a: "pc (exec [RunnerStep (Some ''boom''), RunnerStep None, RunnerStep None] sync_at_do) = Exited \<and>
     trace (exec [RunnerStep (Some ''boom''), RunnerStep None, RunnerStep None] sync_at_do) =
       [HookDo ''a'', LogError ''boom'' ''hook failed'', CounterInc ''hook'' ''error'',
        ChanSend False, ChanClose] \<and>
     hasCompletedOnce (runner (exec [RunnerStep (Some ''boom''), RunnerStep None, RunnerStep None]
        sync_at_do)) = Some \<lparr>chan_cap = 1, chan_buf = [False], chan_closed = True\<rparr>"
    using completion_channel_written_once [where s = sync_at_do and c = "make_chan 1"
        and h = "''a''" and err = "Some ''boom''" and x = None and y = None] h t
    by (simp add: outcome_obs_def make_chan_def)
  have b: "pc (exec [RunnerStep None, WaitCall, RunnerStep None] unbuffered_at_do) = Exited \<and>
     trace (exec [RunnerStep None, WaitCall, RunnerStep None] unbuffered_at_do) =
       [HookDo ''a'', CounterInc ''hook'' ''success'', ChanSend True, ChanClose] \<and>
     hasCompletedOnce (runner (exec [RunnerStep None, WaitCall, RunnerStep None] unbuffered_at_do)) =
       Some \<lparr>chan_cap = 0, chan_buf = [], chan_closed = True\<rparr> \<and>
     waited (exec [RunnerStep None, WaitCall, RunnerStep None] unbuffered_at_do) = [None]"
    using completion_channel_written_once [where s = unbuffered_at_do and c = "make_chan 0"
        and h = "''a''" and err = None and x = None] u v
    by (simp add: outcome_obs_def make_chan_def completion_error_def)
  from a b show ?thesis by simp
qed

text \<open>
  The claim as stated fails for a runner whose completion channel is already closed when
  the first outcome arrives: the send panics, so the channel is never written, and the
  process has crashed.
\<close>

theorem closed_completion_channel_counterexample:
  "pc (exec [RunnerStep None, SendSet ''a'', SendSelect, RunnerStep None, RunnerStep None,
             RunnerStep None, RunnerStep None, RunnerStep None] (boot closed_runner)) = Crashed \<and>
   trace (exec [RunnerStep None, SendSet ''a'', SendSelect, RunnerStep None, RunnerStep None,
             RunnerStep None, RunnerStep None, RunnerStep None] (boot closed_runner)) =
     [HookDo ''a'', CounterInc ''hook'' ''success''] \<and>
   hasCompletedOnce (runner (exec [RunnerStep None, SendSet ''a'', SendSelect, RunnerStep None,
             RunnerStep None, RunnerStep None, RunnerStep None, RunnerStep None]
             (boot closed_runner))) =
     Some \<lparr>chan_cap = 1, chan_buf = [], chan_closed = True\<rparr>"
  by code_simp

section \<open>WaitForCompletion\<close>

lemma first_wait_result:
  assumes r: "hasCompletedOnce r = Some (make_chan n)"
    and w: "waited (exec evs (boot r)) \<noteq> []"
  shows "\<exists>h err k. trace (exec evs (boot r)) = take k (first_outcome_trace (hook r) h err) \<and>
           ChanSend (err = None) \<in> set (trace (exec evs (boot r))) \<and>
           hd (waited (exec evs (boot r))) = completion_error (err = None)"
proof -
  let ?s = "exec evs (boot r)"
  have "completion_inv ?s"
    using r by (intro completion_inv_exec completion_inv_boot)
  then obtain c b where "sent ?s c b"
    using w by (auto simp: completion_inv_def not_sent_def)
  then have b: "ChanSend b \<in> set (trace ?s)" "hd (waited ?s) = completion_error b"
    using w by (auto simp: sent_def)
  from r have "hasCompletedOnce r \<noteq> None" by simp
  from sync_trace_prefix [OF this, of evs] obtain h err k
    where t: "trace ?s = take k (first_outcome_trace (hook r) h err)"
    by blast
  with b(1) have "b = (err = None)"
    using chan_send_in_prefix [of b k "hook r" h err] by simp
  with b t show ?thesis by blast
qed

lemma no_wait_result_before_send:
  assumes r: "hasCompletedOnce r = Some (make_chan n)"
    and w: "\<forall>b. ChanSend b \<notin> set (trace (exec evs (boot r)))"
  shows "waited (exec evs (boot r)) = []"
proof -
  have "completion_inv (exec evs (boot r))"
    using r by (intro completion_inv_exec completion_inv_boot)
  then show ?thesis
    using w by (auto simp: completion_inv_def not_sent_def sent_def)
qed

lemma later_wait_results:
  assumes r: "hasCompletedOnce r = Some (make_chan n)"
  shows "\<forall>y\<in>set (tl (waited (exec evs (boot r)))). y = Some err_completed"
proof -
  have "completion_inv (exec evs (boot r))"
    using r by (intro completion_inv_exec completion_inv_boot)
  then show ?thesis
    by (auto simp: completion_inv_def not_sent_def sent_def)
qed

lemma WaitForCompletion_cases:
  "hasCompletedOnce r = None \<Longrightarrow> WaitForCompletion r = Some (Some err_async, r)"
  "hasCompletedOnce r = Some c \<Longrightarrow> chan_buf c = [] \<Longrightarrow> \<not> chan_closed c \<Longrightarrow>
     WaitForCompletion r = None"
  "hasCompletedOnce r = Some c \<Longrightarrow> chan_buf c = v # rest \<Longrightarrow>
     WaitForCompletion r =
       Some (if v then None else Some err_completed,
             r\<lparr>hasCompletedOnce := Some (c\<lparr>chan_buf := rest\<rparr>)\<rparr>)"
  "hasCompletedOnce r = Some c \<Longrightarrow> chan_buf c = [] \<Longrightarrow> chan_closed c \<Longrightarrow>
     WaitForCompletion r = Some (Some err_completed, r)"
  by (simp_all add: WaitForCompletion_def chan_recv_def completion_error_def)

text \<open>
  C5. Without a completion channel \<open>WaitForCompletion\<close> returns the "async runner" error at
  once. With one, it waits while the channel is empty and open; when a value is there it
  returns nil for \<open>true\<close> and the "completed with error" error for \<open>false\<close>, and takes the
  value out. In the running process (channel empty and open at the start): no call returns
  before the runner has sent, and the first call that returns gets the outcome of the first
  execution, nil exactly if \<open>Do\<close> returned nil.
\<close>

theorem WaitForCompletion_reports_first_outcome:
  "(hasCompletedOnce r = None \<longrightarrow> WaitForCompletion r = Some (Some err_async, r)) \<and>
   (hasCompletedOnce r = Some c \<and> chan_buf c = [] \<and> \<not> chan_closed c \<longrightarrow>
      WaitForCompletion r = None) \<and>
   (hasCompletedOnce r = Some c \<and> chan_buf c = v # rest \<longrightarrow>
      WaitForCompletion r =
        Some (if v then None else Some err_completed,
              r\<lparr>hasCompletedOnce := Some (c\<lparr>chan_buf := rest\<rparr>)\<rparr>)) \<and>
   (hasCompletedOnce r = Some (make_chan n) \<longrightarrow>
      ((\<forall>b. ChanSend b \<notin> set (trace (exec evs (boot r)))) \<longrightarrow> waited (exec evs (boot r)) = []) \<and>
      (waited (exec evs (boot r)) \<noteq> [] \<longrightarrow>
         (\<exists>h err k. trace (exec evs (boot r)) = take k (first_outcome_trace (hook r) h err) \<and>
            ChanSend (err = None) \<in> set (trace (exec evs (boot r))) \<and>
            hd (waited (exec evs (boot r))) = completion_error (err = None))))"
  using WaitForCompletion_cases(1-3) [of r] first_wait_result [of r n evs]
    no_wait_result_before_send [of r n evs]
  by blast

theorem WaitForCompletion_reports_first_outcome_witness:
  "WaitForCompletion async_runner = Some (Some err_async, async_runner) \<and>
   WaitForCompletion sync_runner = None \<and>
   WaitForCompletion
     (sync_runner\<lparr>hasCompletedOnce := Some \<lparr>chan_cap = 1, chan_buf = [True], chan_closed = True\<rparr>\<rparr>) =
     Some (None,
       sync_runner\<lparr>hasCompletedOnce := Some \<lparr>chan_cap = 1, chan_buf = [], chan_closed = True\<rparr>\<rparr>) \<and>
   waited (exec [RunnerStep (Some ''boom''), RunnerStep None, WaitCall, RunnerStep None, WaitCall]
     sync_at_do) = [Some err_completed, Some err_completed]"
proof -
  have h1: "hasCompletedOnce async_runner = None"
    by code_simp
  have h2: "hasCompletedOnce sync_runner = Some (make_chan 1) \<and>
            chan_buf (make_chan 1 :: bool chan) = [] \<and> \<not> chan_closed (make_chan 1 :: bool chan)"
    by code_simp
  have h3: "hasCompletedOnce
       (sync_runner\<lparr>hasCompletedOnce := Some \<lparr>chan_cap = 1, chan_buf = [True], chan_closed = True\<rparr>\<rparr>) =
       Some \<lparr>chan_cap = 1, chan_buf = [True], chan_closed = True\<rparr> \<and>
     chan_buf \<lparr>chan_cap = 1, chan_buf = [True], chan_closed = True\<rparr> = True # []"
    by simp
  have w: "waited (exec [RunnerStep (Some ''boom''), RunnerStep None, WaitCall, RunnerStep None,
      WaitCall] sync_at_do) = [Some err_completed, Some err_completed]"
    by code_simp
  show ?thesis
    using WaitForCompletion_reports_first_outcome [where r = async_runner]
      WaitForCompletion_reports_first_outcome [where r = sync_runner and c = "make_chan 1"]
      WaitForCompletion_reports_first_outcome [where c = "\<lparr>chan_cap = 1, chan_buf = [True], chan_closed = True\<rparr>"
        and v = True and rest = "[]"
        and r = "sync_runner\<lparr>hasCompletedOnce := Some \<lparr>chan_cap = 1, chan_buf = [True], chan_closed = True\<rparr>\<rparr>"]
      h1 h2 h3 w
    by simp
qed

text \<open>
  C9. On the closed and drained channel \<open>WaitForCompletion\<close> returns the "completed with
  error" error at once. In the running process every result after the first one is that
  error, whatever the first outcome was.
\<close>

theorem WaitForCompletion_after_first_call:
  "(hasCompletedOnce r = Some c \<and> chan_buf c = [] \<and> chan_closed c \<longrightarrow>
      WaitForCompletion r = Some (Some err_completed, r)) \<and>
   (hasCompletedOnce r = Some (make_chan n) \<longrightarrow>
      (\<forall>y\<in>set (tl (waited (exec evs (boot r)))). y = Some err_completed))"
  using WaitForCompletion_cases(4) [of r c] later_wait_results [of r n evs]
  by blast

theorem WaitForCompletion_after_first_call_witness:
  "WaitForCompletion
     (sync_runner\<lparr>hasCompletedOnce := Some \<lparr>chan_cap = 1, chan_buf = [], chan_closed = True\<rparr>\<rparr>) =
     Some (Some err_completed,
       sync_runner\<lparr>hasCompletedOnce := Some \<lparr>chan_cap = 1, chan_buf = [], chan_closed = True\<rparr>\<rparr>) \<and>
   waited (exec [RunnerStep None, RunnerStep None, RunnerStep None, WaitCall, WaitCall, WaitCall]
     sync_at_do) = [None, Some err_completed, Some err_completed]"
proof -
  have h: "hasCompletedOnce
       (sync_runner\<lparr>hasCompletedOnce := Some \<lparr>chan_cap = 1, chan_buf = [], chan_closed = True\<rparr>\<rparr>) =
       Some \<lparr>chan_cap = 1, chan_buf = [], chan_closed = True\<rparr> \<and>
     chan_buf \<lparr>chan_cap = 1, chan_buf = ([] :: bool list), chan_closed = True\<rparr> = [] \<and>
     chan_closed \<lparr>chan_cap = 1, chan_buf = ([] :: bool list), chan_closed = True\<rparr>"
    by simp
  have w: "waited (exec [RunnerStep None, RunnerStep None, RunnerStep None, WaitCall, WaitCall,
      WaitCall] sync_at_do) = [None, Some err_completed, Some err_completed]"
    by code_simp
  show ?thesis
    using WaitForCompletion_after_first_call [where c = "\<lparr>chan_cap = 1, chan_buf = [], chan_closed = True\<rparr>"
        and r = "sync_runner\<lparr>hasCompletedOnce := Some \<lparr>chan_cap = 1, chan_buf = [], chan_closed = True\<rparr>\<rparr>"]
      h w
    by simp
qed

section \<open>The failure path\<close>




section \<open>The success path\<close>





section \<open>Failures and the life of the loop\<close>










end
